theory Spec2Isabelle
  imports Complex_Main "HOL-Library.Word" "HOL-Library.Signed_Division"
begin

unbundle bit_operations_syntax

section \<open>Fixed-point trigonometry kernel (sincostan2.c)\<close>

text \<open>
  The C types are modelled by their width: \<open>uint8_t\<close> is an 8-bit word, \<open>int16_t\<close> and
  \<open>uint16_t\<close> are 16-bit words (read with \<open>sint\<close> resp. \<open>uint\<close>/\<open>unat\<close>).  C evaluates
  every arithmetic expression on these types after promotion to \<open>int\<close>, taken to be 32 bits
  wide in two's complement; the model evaluates such expressions in \<open>int\<close> and stores the
  result into a narrower variable with \<open>word_of_int\<close>, which wraps modulo the width of
  the target (the conversion every mainstream compiler implements).  Where the C standard
  leaves a signed shift open, the model takes the two's complement reading: \<open><<\<close> is
  multiplication by a power of two, \<open>>>\<close> is the arithmetic shift.
\<close>

type_synonym uint8_t = "8 word"
type_synonym int16_t = "16 word"
type_synonym uint16_t = "16 word"

subsection \<open>Sine table and sine / cosine\<close>

definition TABLE_SIZE :: nat where
  "TABLE_SIZE = 64"

definition sine_table :: "int16_t list" where
  "sine_table =
    [0, 6, 13, 19, 25, 31, 38, 44,
     50, 56, 62, 69, 75, 81, 87, 93,
     99, 105, 111, 117, 122, 128, 134, 140,
     145, 151, 157, 162, 168, 173, 179, 184,
     189, 195, 200, 205, 210, 216, 221, 226,
     231, 236, 240, 245, 250, 255, 260, 264,
     269, 273, 278, 282, 286, 290, 294, 298,
     302, 306, 310, 313, 317, 320, 324, 327]"

text \<open>
  \<open>fixed_sin_q8_8\<close>: the quadrant is \<open>angle >> 6\<close>, the index \<open>angle & 0x3F\<close>; the switch
  has the four cases and a default.  The index is at most 63, so both \<open>index\<close> and
  \<open>TABLE_SIZE - 1 - index\<close> are inside the table (lemma \<open>index_in_table\<close>).  The negation
  is computed in \<open>int\<close> and stored into the \<open>int16_t\<close> result.
\<close>

definition fixed_sin_q8_8 :: "uint8_t \<Rightarrow> int16_t" where
  "fixed_sin_q8_8 angle =
    (let quadrant = drop_bit 6 angle;
         index = angle AND 0x3F
     in if quadrant = 0 then sine_table ! unat index
        else if quadrant = 1 then sine_table ! (TABLE_SIZE - 1 - unat index)
        else if quadrant = 2 then word_of_int (- sint (sine_table ! unat index))
        else if quadrant = 3 then word_of_int (- sint (sine_table ! (TABLE_SIZE - 1 - unat index)))
        else 0)"

text \<open>
  \<open>fixed_cos_q8_8\<close>: \<open>angle + 64\<close> is an \<open>int\<close> addition whose result is converted to the
  \<open>uint8_t\<close> parameter of \<open>fixed_sin_q8_8\<close>.
\<close>

definition fixed_cos_q8_8 :: "uint8_t \<Rightarrow> int16_t" where
  "fixed_cos_q8_8 angle = fixed_sin_q8_8 (word_of_int (uint angle + 64))"


subsection \<open>Arctangent of two arguments\<close>

text \<open>
  Integer division of C truncates towards zero (\<open>sdiv\<close> on \<open>int\<close>); a zero divisor is
  a fault, modelled as \<open>None\<close>.
\<close>

definition c_div :: "int \<Rightarrow> int \<Rightarrow> int option" where
  "c_div a b = (if b = 0 then None else Some (a sdiv b))"

text \<open>
  \<open>fixed_atan2_q8_8\<close>.  \<open>abs\<close> works on \<open>int\<close>; its result is stored into an
  \<open>int16_t\<close>, so \<open>abs (-32768) = 32768\<close> is stored as \<open>-32768\<close>.  The shifts
  \<open>abs_x << 8\<close> and \<open>z_q8_8 >> 2\<close> are evaluated in \<open>int\<close>, as multiplication by
  \<open>2 ^ 8\<close> and as arithmetic shift; none of the intermediate values leaves the 32-bit
  range.  Every assignment to \<open>base_angle\<close> and the returned value are truncated to
  \<open>uint8_t\<close>.  The result is \<open>None\<close> where the C program divides by zero.
\<close>

definition fixed_atan2_q8_8 :: "int16_t \<Rightarrow> int16_t \<Rightarrow> uint8_t option" where
  "fixed_atan2_q8_8 y x =
    (if x = 0 \<and> y = 0 then Some 0
     else
      let abs_y = (word_of_int \<bar>sint y\<bar> :: int16_t);
          abs_x = (word_of_int \<bar>sint x\<bar> :: int16_t);
          invert = (sint abs_y > sint abs_x);
          quot = (if invert then c_div (push_bit 8 (sint abs_x)) (sint abs_y)
                  else c_div (push_bit 8 (sint abs_y)) (sint abs_x))
      in case quot of
           None \<Rightarrow> None
         | Some q \<Rightarrow>
            let z_q8_8 = (word_of_int q :: int16_t);
                base_angle0 = (word_of_int (drop_bit 2 (sint z_q8_8)) :: uint8_t);
                base_angle = (if invert then word_of_int (64 - uint base_angle0) else base_angle0)
            in Some (if sint x \<ge> 0 \<and> sint y \<ge> 0 then base_angle
                     else if sint x < 0 \<and> sint y \<ge> 0 then word_of_int (128 - uint base_angle)
                     else if sint x < 0 \<and> sint y < 0 then word_of_int (128 + uint base_angle)
                     else word_of_int (256 - uint base_angle)))"

subsection \<open>Integer square root\<close>

text \<open>
  In \<open>temp * temp <= x\<close> both operands are promoted to the signed 32-bit \<open>int\<close>.  A
  product outside that range is undefined behaviour in C; the model returns \<open>None\<close> there,
  so that a result \<open>Some r\<close> says that no squaring overflowed.
\<close>

definition fits_int32 :: "int \<Rightarrow> bool" where
  "fits_int32 v = (- (2 ^ 31) \<le> v \<and> v < 2 ^ 31)"

function isqrt16_loop :: "uint16_t \<Rightarrow> uint16_t \<Rightarrow> uint16_t \<Rightarrow> uint16_t option" where
  "isqrt16_loop x res bit' =
    (if bit' > 0 then
       (let temp = res OR bit' in
        if \<not> fits_int32 (uint temp * uint temp) then None
        else isqrt16_loop x (if uint temp * uint temp \<le> uint x then temp else res)
               (drop_bit 1 bit'))
     else Some res)"
  by pat_completeness auto
termination
proof (relation "measure (\<lambda>(x, res, b). unat b)")
  show "wf (measure (\<lambda>(x, res, b). unat b))" by simp
next
  fix x res bit' :: uint16_t and temp :: uint16_t
  assume "0 < bit'"
  then have "0 < unat bit'" by (simp add: word_less_nat_alt)
  then have "unat bit' div 2 < unat bit'" by simp
  then have "unat (drop_bit 1 bit') < unat bit'"
    by (simp add: unat_drop_bit_eq drop_bit_eq_div unat_div)
  then show "((x, if uint temp * uint temp \<le> uint x then temp else res, drop_bit 1 bit'),
              (x, res, bit')) \<in> measure (\<lambda>(x, res, b). unat b)"
    by simp
qed

declare isqrt16_loop.simps [simp del]

definition isqrt16 :: "uint16_t \<Rightarrow> uint16_t option" where
  "isqrt16 x = isqrt16_loop x 0 (push_bit 14 1)"

subsection \<open>Planar magnitude\<close>

text \<open>
  \<open>pythagoras_q88_16bit\<close>.  The conditional negation is an \<open>int\<close> expression stored
  into a \<open>uint16_t\<close>; the squares are products of \<open>uint32_t\<close>, taken modulo \<open>2 ^ 32\<close>,
  shifted right by 8 and stored into a \<open>uint16_t\<close>; the sum is an \<open>int\<close> addition stored
  into a \<open>uint16_t\<close>; the returned value is \<open>sqrt_result << 4\<close> converted to \<open>int16_t\<close>.
\<close>

definition pythagoras_q88_16bit :: "int16_t \<Rightarrow> int16_t \<Rightarrow> int16_t option" where
  "pythagoras_q88_16bit a_q88 b_q88 =
    (let a = (word_of_int (if sint a_q88 < 0 then - sint a_q88 else sint a_q88) :: uint16_t);
         b = (word_of_int (if sint b_q88 < 0 then - sint b_q88 else sint b_q88) :: uint16_t);
         a2 = (word_of_int (drop_bit 8 ((uint a * uint a) mod 2 ^ 32)) :: uint16_t);
         b2 = (word_of_int (drop_bit 8 ((uint b * uint b) mod 2 ^ 32)) :: uint16_t);
         sum = (word_of_int (uint a2 + uint b2) :: uint16_t)
     in case isqrt16 sum of
          None \<Rightarrow> None
        | Some sqrt_result \<Rightarrow> Some (word_of_int (push_bit 4 (uint sqrt_result))))"

section \<open>Properties\<close>

subsection \<open>Table access\<close>

lemma length_sine_table: "length sine_table = TABLE_SIZE"
  by (simp add: sine_table_def TABLE_SIZE_def)

lemma index_in_table:
  "unat ((angle :: uint8_t) AND 0x3F) < TABLE_SIZE"
proof -
  have "unat (angle AND 0x3F) \<le> unat (0x3F :: uint8_t)"
    by (rule word_and_le1 [THEN word_le_nat_alt [THEN iffD1]])
  then show ?thesis by (simp add: TABLE_SIZE_def)
qed

text \<open>
  C1.  The anchor values of the sine evaluator.  The code returns 0 at angle 0, but 327 at
  angle 64 and -327 at angle 192, where a Q8.8 sine has 256 and -256.
\<close>

theorem fixed_sin_anchor_values:
  "fixed_sin_q8_8 0 = 0 \<and> sint (fixed_sin_q8_8 64) = 327 \<and> sint (fixed_sin_q8_8 192) = - 327"
  by (simp add: fixed_sin_q8_8_def sine_table_def TABLE_SIZE_def)

subsection \<open>Quadrant and index as arithmetic on the angle\<close>

lemma unat_uint8_less: "unat (a :: uint8_t) < 256"
  using unsigned_less [of a, where 'a = nat] by simp

lemma unat_quadrant: "unat (drop_bit 6 (a :: uint8_t)) = unat a div 64"
  by (simp add: unat_drop_bit_eq drop_bit_eq_div unat_div)

lemma unat_index: "unat ((a :: uint8_t) AND 0x3F) = unat a mod 64"
proof -
  have "a AND 0x3F = take_bit 6 a"
    by (simp add: take_bit_eq_mask mask_eq_exp_minus_1)
  then show ?thesis
    by (simp add: unsigned_take_bit_eq take_bit_eq_mod unat_mod)
qed

lemma quadrant_eq_iff: "drop_bit 6 (a :: uint8_t) = of_nat k \<longleftrightarrow> unat a div 64 = k mod 256"
  by (simp add: word_unat_eq_iff unat_quadrant unat_of_nat)

lemma fixed_sin_by_quadrant:
  "fixed_sin_q8_8 a =
    (if unat a div 64 = 0 then sine_table ! (unat a mod 64)
     else if unat a div 64 = 1 then sine_table ! (63 - unat a mod 64)
     else if unat a div 64 = 2 then - (sine_table ! (unat a mod 64))
     else - (sine_table ! (63 - unat a mod 64)))"
proof -
  have "unat a div 64 < 4"
    using unat_uint8_less [of a] by linarith
  then have "unat a div 64 = 0 \<or> unat a div 64 = 1 \<or> unat a div 64 = 2 \<or> unat a div 64 = 3"
    by linarith
  moreover have "drop_bit 6 a = 0 \<longleftrightarrow> unat a div 64 = 0"
    "drop_bit 6 a = 1 \<longleftrightarrow> unat a div 64 = 1"
    "drop_bit 6 a = 2 \<longleftrightarrow> unat a div 64 = 2"
    "drop_bit 6 a = 3 \<longleftrightarrow> unat a div 64 = 3"
    using quadrant_eq_iff [of a 0] quadrant_eq_iff [of a 1]
      quadrant_eq_iff [of a 2] quadrant_eq_iff [of a 3] by simp_all
  ultimately show ?thesis
    by (auto simp add: fixed_sin_q8_8_def Let_def unat_index TABLE_SIZE_def)
qed

lemma unat_mirror: "unat (127 - (a :: uint8_t)) = (if unat a \<le> 127 then 127 - unat a else 383 - unat a)"
  by (simp add: unat_sub_if_size word_size)

lemma divmod_64: "r < 64 \<Longrightarrow> (64 * k + r) div 64 = k \<and> (64 * k + r) mod 64 = (r::nat)"
  by simp

lemma mirror_index:
  fixes n :: nat
  assumes "n < 256"
  shows "(if n \<le> 127 then 127 - n else 383 - n) div 64 =
           (if even (n div 64) then n div 64 + 1 else n div 64 - 1)
       \<and> (if n \<le> 127 then 127 - n else 383 - n) mod 64 = 63 - n mod 64"
proof -
  define q r where "q = n div 64" and "r = n mod 64"
  have n: "n = 64 * q + r" and r: "r < 64"
    by (simp_all add: q_def r_def)
  with assms have "q < 4" by linarith
  then consider "q = 0" | "q = 1" | "q = 2" | "q = 3" by linarith
  then show ?thesis
  proof cases
    case 1
    with n r have "n \<le> 127" "127 - n = 64 * 1 + (63 - r)" by linarith+
    with 1 r show ?thesis
      using divmod_64 [of "63 - r" 1] by (simp flip: q_def r_def)
  next
    case 2
    with n r have "n \<le> 127" "127 - n = 64 * 0 + (63 - r)" by linarith+
    with 2 r show ?thesis
      using divmod_64 [of "63 - r" 0] by (simp flip: q_def r_def)
  next
    case 3
    with n r have "\<not> n \<le> 127" "383 - n = 64 * 3 + (63 - r)" by linarith+
    with 3 r show ?thesis
      using divmod_64 [of "63 - r" 3] by (simp flip: q_def r_def)
  next
    case 4
    with n r have "\<not> n \<le> 127" "383 - n = 64 * 2 + (63 - r)" by linarith+
    with 4 r show ?thesis
      using divmod_64 [of "63 - r" 2] by (simp flip: q_def r_def)
  qed
qed

lemma fixed_sin_mirror: "fixed_sin_q8_8 (127 - a) = fixed_sin_q8_8 a"
proof -
  define n m where "n = unat a" and "m = unat (127 - a)"
  have n: "n < 256"
    using unat_uint8_less [of a] by (simp add: n_def)
  have m: "m = (if n \<le> 127 then 127 - n else 383 - n)"
    by (simp add: m_def n_def unat_mirror)
  have md: "m div 64 = (if even (n div 64) then n div 64 + 1 else n div 64 - 1)"
    and mm: "m mod 64 = 63 - n mod 64"
    using mirror_index [OF n] unfolding m by blast+
  have r: "63 - (63 - n mod 64) = n mod 64" by simp
  have "n div 64 < 4" using n by linarith
  then consider "n div 64 = 0" | "n div 64 = 1" | "n div 64 = 2" | "n div 64 = 3" by linarith
  then show ?thesis
    unfolding fixed_sin_by_quadrant [of a] fixed_sin_by_quadrant [of "127 - a"]
      m_def [symmetric] n_def [symmetric] md mm r
    by cases simp_all
qed

subsection \<open>Claims about sine and cosine\<close>

text \<open>
  C2.  The table is not the quantized first-quadrant sine: its last entry is 327, whereas
  \<open>round (sin (63 \<cdot> 90\<degree> / 64) \<cdot> 256)\<close> cannot exceed 256.
\<close>

theorem sine_table_last_entry_exceeds_sine:
  "sint (sine_table ! 63) = 327 \<and> round (sin (real 63 * (pi / 2) / 64) * 256) \<le> 256"
proof -
  have "sin (real 63 * (pi / 2) / 64) * 256 \<le> 1 * 256"
    by (intro mult_right_mono) simp_all
  then have "round (sin (real 63 * (pi / 2) / 64) * 256) \<le> round (256::real)"
    by (intro round_mono) simp
  then show ?thesis
    by (simp add: sine_table_def)
qed

text \<open>
  C5.  For every 8-bit angle, the cosine is the sine of the angle advanced by a quarter
  turn, the addition taken modulo 256.
\<close>

theorem fixed_cos_is_shifted_sin:
  "fixed_cos_q8_8 a = fixed_sin_q8_8 (of_nat ((unat a + 64) mod 256))"
proof -
  have "(of_nat ((unat a + 64) mod 256) :: uint8_t) = a + 64"
    by (simp add: word_unat_eq_iff unat_of_nat unat_word_ariths)
  then show ?thesis
    by (simp add: fixed_cos_q8_8_def)
qed

text \<open>
  C7.  At angle 0 the sum of the squares of sine and cosine is 106929, which is 41393
  above \<open>256\<^sup>2 = 65536\<close>.
\<close>

theorem sin_cos_squares_at_zero:
  "(sint (fixed_sin_q8_8 0))\<^sup>2 + (sint (fixed_cos_q8_8 0))\<^sup>2 = 106929"
  by (simp add: fixed_cos_q8_8_def fixed_sin_q8_8_def sine_table_def TABLE_SIZE_def)

text \<open>
  C9.  For every 8-bit angle \<open>a\<close>, the sine at \<open>a\<close> equals the sine at
  \<open>(127 - a) mod 256\<close>.
\<close>

theorem fixed_sin_mirror_symmetry:
  "fixed_sin_q8_8 a = fixed_sin_q8_8 (word_of_int ((127 - uint a) mod 256))"
proof -
  have "(word_of_int ((127 - uint a) mod 256) :: uint8_t) = 127 - a"
    by (simp add: word_uint_eq_iff uint_word_of_int uint_word_ariths)
  then show ?thesis
    by (simp add: fixed_sin_mirror)
qed

subsection \<open>The integer square root loop\<close>

lemma or_bit_eq_add:
  fixes a :: int
  assumes "take_bit (Suc k) a = 0"
  shows "a OR 2 ^ k = a + 2 ^ k"
proof -
  have "\<not> bit a k"
  proof
    assume "bit a k"
    then have "bit (take_bit (Suc k) a) k" by (simp add: bit_take_bit_iff)
    with assms show False by simp
  qed
  then have "a AND 2 ^ k = 0"
    by (intro bit_eqI) (auto simp add: bit_and_iff bit_exp_iff)
  then show ?thesis
    by (rule disjunctive_add_eq_or [symmetric])
qed

lemma take_bit_step:
  fixes a :: int
  assumes "take_bit (Suc k) a = 0"
  shows "take_bit k (a + 2 ^ k) = 0" and "take_bit k a = 0"
proof -
  have "take_bit k (take_bit (Suc k) a) = take_bit k a"
    by (simp add: take_bit_take_bit)
  with assms show *: "take_bit k a = 0" by simp
  have "take_bit k (a OR 2 ^ k) = take_bit k a OR take_bit k (2 ^ k)" by simp
  also have "\<dots> = 0" using * by (simp add: take_bit_eq_mod)
  finally show "take_bit k (a + 2 ^ k) = 0" using or_bit_eq_add [OF assms] by simp
qed


lemma isqrt16_loop_exit: "uint b = 0 \<Longrightarrow> isqrt16_loop x res b = Some res"
  by (subst isqrt16_loop.simps) (simp add: word_less_def)

lemma isqrt16_loop_step:
  fixes x res b :: uint16_t and k :: nat
  assumes b: "uint b = 2 ^ k" and k: "k < 15"
    and tb: "take_bit (Suc k) (uint res) = 0"
    and bound: "uint res + 2 * 2 ^ k \<le> 32768"
  defines "res' \<equiv> (if (uint res + 2 ^ k)\<^sup>2 \<le> uint x then res + b else res)"
  shows "isqrt16_loop x res b = isqrt16_loop x res' (drop_bit 1 b)"
    and "uint res' = (if (uint res + 2 ^ k)\<^sup>2 \<le> uint x then uint res + 2 ^ k else uint res)"
proof -
  have pos: "0 < b" using b by (simp add: word_less_def)
  have or_eq: "uint (res OR b) = uint res + 2 ^ k"
    using or_bit_eq_add [OF tb] b by (simp add: uint_or)
  have p: "(0::int) < 2 ^ k" by simp
  have le: "uint res + 2 ^ k \<le> 32768"
    using bound p by linarith
  then have "uint res + uint b < 2 ^ LENGTH(16)"
    using b by simp
  then have "uint (res + b) = uint res + uint b"
    by (simp only: uint_add_lem)
  then have add_eq: "uint (res + b) = uint res + 2 ^ k"
    by (simp only: b)
  have or_add: "res OR b = res + b"
    using or_eq add_eq by (simp add: word_uint_eq_iff)
  define s where "s = (uint res + 2 ^ k) * (uint res + 2 ^ k)"
  have "0 \<le> uint res" by simp
  then have "(uint res + 2 ^ k) * (uint res + 2 ^ k) \<le> 32768 * 32768"
    using le by (intro mult_mono) simp_all
  then have "s \<le> 1073741824" by (simp add: s_def)
  moreover have "0 \<le> s" by (simp add: s_def)
  ultimately have "fits_int32 s"
    by (simp add: fits_int32_def)
  then have "fits_int32 ((uint res + 2 ^ k) * (uint res + 2 ^ k))"
    by (simp only: s_def)
  then show "isqrt16_loop x res b = isqrt16_loop x res' (drop_bit 1 b)"
    using pos add_eq or_add
    by (subst isqrt16_loop.simps) (simp add: Let_def res'_def power2_eq_square)
  show "uint res' = (if (uint res + 2 ^ k)\<^sup>2 \<le> uint x then uint res + 2 ^ k else uint res)"
    using add_eq by (simp add: res'_def)
qed


lemma uint_halve: "uint (drop_bit (Suc 0) (b :: uint16_t)) = uint b div 2"
  by (simp add: unsigned_drop_bit_eq drop_bit_eq_div uint_div)

lemma isqrt16_loop_correct:
  fixes x res b :: uint16_t
  assumes "uint b = 2 ^ k" "k < 15" "take_bit (Suc k) (uint res) = 0"
    and "uint res + 2 * 2 ^ k \<le> 32768"
    and "(uint res)\<^sup>2 \<le> uint x" "uint x < (uint res + 2 * 2 ^ k)\<^sup>2"
  shows "\<exists>r. isqrt16_loop x res b = Some r \<and> (uint r)\<^sup>2 \<le> uint x \<and> uint x < (uint r + 1)\<^sup>2"
  using assms
proof (induction k arbitrary: res b)
  case 0
  define res' where "res' = (if (uint res + 2 ^ 0)\<^sup>2 \<le> uint x then res + b else res)"
  have step: "isqrt16_loop x res b = isqrt16_loop x res' (drop_bit 1 b)"
    and val: "uint res' = (if (uint res + 2 ^ 0)\<^sup>2 \<le> uint x then uint res + 2 ^ 0 else uint res)"
    using isqrt16_loop_step [of b 0 res x] 0 by (simp_all add: res'_def)
  have "uint (drop_bit 1 b) = 0"
    using 0 by (simp add: uint_halve)
  then have "isqrt16_loop x res b = Some res'"
    using step by (simp add: isqrt16_loop_exit)
  moreover have "(uint res')\<^sup>2 \<le> uint x \<and> uint x < (uint res' + 1)\<^sup>2"
  proof (cases "(uint res + 2 ^ 0)\<^sup>2 \<le> uint x")
    case True
    then have "uint res' = uint res + 1"
      using val by simp
    with True 0 show ?thesis by (simp add: add.commute)
  next
    case False
    with val 0 show ?thesis by simp
  qed
  ultimately show ?case by blast
next
  case (Suc k)
  define res' where "res' = (if (uint res + 2 ^ Suc k)\<^sup>2 \<le> uint x then res + b else res)"
  have step: "isqrt16_loop x res b = isqrt16_loop x res' (drop_bit 1 b)"
    and val: "uint res' = (if (uint res + 2 ^ Suc k)\<^sup>2 \<le> uint x then uint res + 2 ^ Suc k else uint res)"
    using isqrt16_loop_step [of b "Suc k" res x] Suc.prems by (simp_all add: res'_def)
  have b': "uint (drop_bit 1 b) = 2 ^ k"
    using Suc.prems by (simp add: uint_halve)
  have k: "k < 15" using Suc.prems by simp
  have tb: "take_bit (Suc k) (uint res') = 0"
    using take_bit_step [of "Suc k" "uint res"] Suc.prems val by simp
  define p where "p = (2::int) ^ k"
  have p: "0 < p" by (simp add: p_def)
  have prems: "uint res + 4 * p \<le> 32768" "(uint res)\<^sup>2 \<le> uint x"
    "uint x < (uint res + 4 * p)\<^sup>2"
    using Suc.prems by (simp_all add: p_def)
  have val': "uint res' = (if (uint res + 2 * p)\<^sup>2 \<le> uint x then uint res + 2 * p else uint res)"
    using val by (simp add: p_def)
  have "uint res' + 2 * p \<le> 32768"
    using prems val' p by (simp split: if_splits)
  then have bound: "uint res' + 2 * 2 ^ k \<le> 32768"
    by (simp add: p_def)
  have "(uint res')\<^sup>2 \<le> uint x"
    using prems val' by (simp split: if_splits)
  then have lo: "(uint res')\<^sup>2 \<le> uint x" .
  have "uint x < (uint res' + 2 * p)\<^sup>2"
    using prems val' by (simp add: not_le ac_simps split: if_splits)
  then have hi: "uint x < (uint res' + 2 * 2 ^ k)\<^sup>2"
    by (simp add: p_def)
  show ?case
    using Suc.IH [OF b' k tb bound lo hi] step by simp
qed

lemma isqrt16_floor_sqrt:
  "\<exists>r. isqrt16 x = Some r \<and> (uint r)\<^sup>2 \<le> uint x \<and> uint x < (uint r + 1)\<^sup>2"
proof -
  have "uint x < 65536"
    using uint_lt2p [of x] by simp
  then have "uint x < (uint (0 :: uint16_t) + 2 * 2 ^ 14)\<^sup>2"
    by simp
  moreover have "uint (push_bit 14 1 :: uint16_t) = 2 ^ 14" by simp
  ultimately show ?thesis
    unfolding isqrt16_def
    by (intro isqrt16_loop_correct [where k = 14]) simp_all
qed

lemma isqrt16_le_255:
  assumes "isqrt16 x = Some r"
  shows "uint r \<le> 255"
proof (rule ccontr)
  assume "\<not> uint r \<le> 255"
  then have "256 \<le> uint r" by simp
  then have "256 * 256 \<le> uint r * uint r"
    by (intro mult_mono) simp_all
  moreover have "(uint r)\<^sup>2 \<le> uint x"
    using isqrt16_floor_sqrt [of x] assms by auto
  moreover have "uint x < 65536"
    using uint_lt2p [of x] by simp
  ultimately show False
    by (simp add: power2_eq_square)
qed

lemma sint_small:
  assumes "0 \<le> k" "k < 32768"
  shows "sint (word_of_int k :: int16_t) = k"
  using assms by (simp add: sint_uint uint_word_of_int signed_take_bit_int_eq_self)

lemma floor_sqrt_unique:
  fixes r n :: nat
  assumes "r\<^sup>2 \<le> n" "n < (r + 1)\<^sup>2"
  shows "\<lfloor>sqrt (real n)\<rfloor> = int r"
proof -
  have "real (r\<^sup>2) \<le> real n"
    using assms(1) by (simp only: of_nat_le_iff)
  then have "(real r)\<^sup>2 \<le> real n"
    by (simp only: of_nat_power)
  then have lo: "real r \<le> sqrt (real n)"
    by (rule real_le_rsqrt)
  have "real n < real ((r + 1)\<^sup>2)"
    using assms(2) by (simp only: of_nat_less_iff)
  then have "real n < (real r + 1)\<^sup>2"
    by (simp only: of_nat_power of_nat_add of_nat_1)
  moreover have "0 \<le> real r + 1" by simp
  ultimately have hi: "sqrt (real n) < real r + 1"
    by (intro real_less_lsqrt)
  show ?thesis
    by (rule floor_unique) (use lo hi in simp_all)
qed

text \<open>
  C6.  For every unsigned 16-bit \<open>x\<close>, \<open>isqrt16\<close> returns (no squaring leaves the range of
  \<open>int\<close>) the floor of the square root of \<open>x\<close>: the result \<open>r\<close> satisfies
  \<open>r\<^sup>2 \<le> x < (r + 1)\<^sup>2\<close>; in particular \<open>isqrt16 0 = 0\<close> and \<open>isqrt16 65535 = 255\<close>.
\<close>

theorem isqrt16_is_floor_sqrt:
  "(\<exists>r. isqrt16 x = Some r \<and> (unat r)\<^sup>2 \<le> unat x \<and> unat x < (unat r + 1)\<^sup>2
        \<and> int (unat r) = \<lfloor>sqrt (real (unat x))\<rfloor>)
   \<and> isqrt16 0 = Some 0 \<and> isqrt16 65535 = Some 255"
proof -
  obtain r where r: "isqrt16 x = Some r" "(uint r)\<^sup>2 \<le> uint x" "uint x < (uint r + 1)\<^sup>2"
    using isqrt16_floor_sqrt [of x] by blast
  have "(int (unat r))\<^sup>2 \<le> int (unat x)"
    using r(2) by simp
  then have "int ((unat r)\<^sup>2) \<le> int (unat x)"
    by (simp only: of_nat_power)
  then have lo: "(unat r)\<^sup>2 \<le> unat x"
    by (simp only: of_nat_le_iff)
  have "int (unat x) < (int (unat r) + 1)\<^sup>2"
    using r(3) by simp
  then have "int (unat x) < int ((unat r + 1)\<^sup>2)"
    by (simp only: of_nat_power of_nat_add of_nat_1)
  then have hi: "unat x < (unat r + 1)\<^sup>2"
    by (simp only: of_nat_less_iff)
  have "\<lfloor>sqrt (real (unat x))\<rfloor> = int (unat r)"
    using lo hi by (rule floor_sqrt_unique)
  moreover have "isqrt16 0 = Some 0" "isqrt16 65535 = Some 255"
    by (simp_all add: isqrt16_def isqrt16_loop.simps fits_int32_def)
  ultimately show ?thesis
    using r(1) lo hi by simp
qed

subsection \<open>Claims about the planar magnitude\<close>

text \<open>
  C8.  On the scaled 3-4-5 triple, \<open>pythagoras_q88_16bit 768 1024\<close> returns 1280, that is
  \<open>5 \<cdot> 256\<close>: the integer square root 80 of \<open>2304 + 4096\<close> shifted left by 4.
\<close>

theorem pythagoras_3_4_5: "pythagoras_q88_16bit 768 1024 = Some 1280"
  by (simp add: pythagoras_q88_16bit_def isqrt16_def isqrt16_loop.simps fits_int32_def)

text \<open>
  C10.  For every pair of signed 16-bit inputs, \<open>pythagoras_q88_16bit\<close> returns a
  nonnegative value: it lies between 0 and 4080 and is a multiple of 16.
\<close>

theorem pythagoras_result_range:
  "\<exists>r. pythagoras_q88_16bit a b = Some r \<and> 0 \<le> sint r \<and> sint r \<le> 4080 \<and> 16 dvd sint r"
proof -
  define a' b' a2 b2 sum' where
    "a' = (word_of_int (if sint a < 0 then - sint a else sint a) :: uint16_t)"
    and "b' = (word_of_int (if sint b < 0 then - sint b else sint b) :: uint16_t)"
    and "a2 = (word_of_int (drop_bit 8 ((uint a' * uint a') mod 2 ^ 32)) :: uint16_t)"
    and "b2 = (word_of_int (drop_bit 8 ((uint b' * uint b') mod 2 ^ 32)) :: uint16_t)"
    and "sum' = (word_of_int (uint a2 + uint b2) :: uint16_t)"
  obtain s where s: "isqrt16 sum' = Some s"
    using isqrt16_floor_sqrt [of sum'] by blast
  have s255: "uint s \<le> 255" by (rule isqrt16_le_255 [OF s])
  have "pythagoras_q88_16bit a b = Some (word_of_int (push_bit 4 (uint s)))"
    using s unfolding pythagoras_q88_16bit_def Let_def a'_def b'_def a2_def b2_def sum'_def
    by simp
  moreover have "sint (word_of_int (push_bit 4 (uint s)) :: int16_t) = 16 * uint s"
    using s255 by (subst sint_small) (simp_all add: push_bit_eq_mult)
  ultimately show ?thesis
    using s255 by simp
qed

subsection \<open>Arithmetic of the arctangent\<close>

lemma sint_word_of_int16:
  assumes "- 32768 \<le> k" "k < 32768"
  shows "sint (word_of_int k :: int16_t) = k"
  using assms by (simp add: signed_of_int signed_take_bit_int_eq_self)

lemma sint_int16_range: "- 32768 \<le> sint (w :: int16_t) \<and> sint w < 32768"
  using sint_ge [of w] sint_lt [of w] by simp

lemma sint_abs16:
  assumes "- 32768 < sint (w :: int16_t)"
  shows "sint (word_of_int \<bar>sint w\<bar> :: int16_t) = \<bar>sint w\<bar>"
  using assms sint_int16_range [of w] by (intro sint_word_of_int16) simp_all

lemma sdiv_nonneg: "0 \<le> a \<Longrightarrow> 0 < b \<Longrightarrow> a sdiv b = a div (b::int)"
  by (simp add: signed_divide_int_def sgn_if)

lemma ratio_bounds:
  fixes mn mx :: int
  assumes "0 \<le> mn" "mn \<le> mx" "0 < mx"
  shows "0 \<le> push_bit 8 mn sdiv mx" "push_bit 8 mn sdiv mx \<le> 256"
proof -
  have eq: "push_bit 8 mn sdiv mx = (mn * 256) div mx"
    using assms by (simp add: sdiv_nonneg push_bit_eq_mult)
  show "0 \<le> push_bit 8 mn sdiv mx"
    using assms unfolding eq by (simp add: pos_imp_zdiv_nonneg_iff)
  have "(mn * 256) div mx \<le> (mx * 256) div mx"
    using assms by (intro zdiv_mono1) simp_all
  also have "\<dots> = 256" using assms by simp
  finally show "push_bit 8 mn sdiv mx \<le> 256" unfolding eq .
qed

lemma base_angle_bounds:
  fixes q :: int
  assumes "0 \<le> q" "q \<le> 256"
  shows "uint (word_of_int (drop_bit 2 (sint (word_of_int q :: int16_t))) :: uint8_t) = q div 4"
    and "0 \<le> q div 4" and "q div 4 \<le> 64"
    and "(word_of_int (drop_bit 2 (sint (word_of_int q :: int16_t))) :: uint8_t) = word_of_int (q div 4)"
proof -
  have "sint (word_of_int q :: int16_t) = q"
    using assms by (intro sint_word_of_int16) simp_all
  then show "(word_of_int (drop_bit 2 (sint (word_of_int q :: int16_t))) :: uint8_t) = word_of_int (q div 4)"
    by (simp add: drop_bit_eq_div)
  moreover show "0 \<le> q div 4" "q div 4 \<le> 64" using assms by simp_all
  ultimately show "uint (word_of_int (drop_bit 2 (sint (word_of_int q :: int16_t))) :: uint8_t) = q div 4"
    by (simp add: drop_bit_eq_div uint_word_of_int)
qed


lemma uint_word_of_int8:
  assumes "0 \<le> k" "k < 256"
  shows "uint (word_of_int k :: uint8_t) = k"
  using assms by (simp add: uint_word_of_int)

lemma fixed_atan2_base:
  assumes y: "- 32768 < sint y" and x: "- 32768 < sint x" and nz: "\<not> (x = 0 \<and> y = 0)"
  shows "\<exists>\<beta>. 0 \<le> \<beta> \<and> \<beta> \<le> 64 \<and> fixed_atan2_q8_8 y x = Some (
        if sint x \<ge> 0 \<and> sint y \<ge> 0 then word_of_int \<beta>
        else if sint x < 0 \<and> sint y \<ge> 0 then word_of_int (128 - \<beta>)
        else if sint x < 0 \<and> sint y < 0 then word_of_int (128 + \<beta>)
        else word_of_int (256 - \<beta>))"
proof -
  define ay ax where "ay = \<bar>sint y\<bar>" and "ax = \<bar>sint x\<bar>"
  have say: "sint (word_of_int \<bar>sint y\<bar> :: int16_t) = ay"
    and sax: "sint (word_of_int \<bar>sint x\<bar> :: int16_t) = ax"
    using sint_abs16 [OF y] sint_abs16 [OF x] by (simp_all add: ay_def ax_def)
  have nonneg: "0 \<le> ay" "0 \<le> ax" by (simp_all add: ay_def ax_def)
  have "sint x \<noteq> 0 \<or> sint y \<noteq> 0"
    using nz by (simp add: signed_eq_0_iff)
  then have pos: "0 < ax \<or> 0 < ay" by (auto simp add: ay_def ax_def)
  show ?thesis
  proof (cases "ay > ax")
    case True
    define q where "q = push_bit 8 ax sdiv ay"
    have q: "0 \<le> q" "q \<le> 256"
      using ratio_bounds [of ax ay] nonneg True by (simp_all add: q_def)
    define \<beta> where "\<beta> = 64 - q div 4"
    have \<beta>: "0 \<le> \<beta>" "\<beta> \<le> 64"
      using base_angle_bounds(2,3) [OF q] by (simp_all add: \<beta>_def)
    have u: "uint (word_of_int \<beta> :: uint8_t) = \<beta>"
      using \<beta> by (intro uint_word_of_int8) simp_all
    have "ay \<noteq> 0" using True nonneg by simp
    then have "fixed_atan2_q8_8 y x = Some (
        if sint x \<ge> 0 \<and> sint y \<ge> 0 then word_of_int \<beta>
        else if sint x < 0 \<and> sint y \<ge> 0 then word_of_int (128 - \<beta>)
        else if sint x < 0 \<and> sint y < 0 then word_of_int (128 + \<beta>)
        else word_of_int (256 - \<beta>))"
      using True base_angle_bounds(1) [OF q] u
      unfolding fixed_atan2_q8_8_def if_not_P [OF nz] Let_def say sax c_div_def q_def [symmetric]
      by (simp add: \<beta>_def)
    with \<beta> show ?thesis by blast
  next
    case False
    define q where "q = push_bit 8 ay sdiv ax"
    have ax: "0 < ax" using False pos by linarith
    have q: "0 \<le> q" "q \<le> 256"
      using ratio_bounds [of ay ax] nonneg False ax by (simp_all add: q_def)
    define \<beta> where "\<beta> = q div 4"
    have \<beta>: "0 \<le> \<beta>" "\<beta> \<le> 64"
      using base_angle_bounds(2,3) [OF q] by (simp_all add: \<beta>_def)
    have u: "uint (word_of_int \<beta> :: uint8_t) = \<beta>"
      using \<beta> by (intro uint_word_of_int8) simp_all
    have "ax \<noteq> 0" using ax by simp
    then have "fixed_atan2_q8_8 y x = Some (
        if sint x \<ge> 0 \<and> sint y \<ge> 0 then word_of_int \<beta>
        else if sint x < 0 \<and> sint y \<ge> 0 then word_of_int (128 - \<beta>)
        else if sint x < 0 \<and> sint y < 0 then word_of_int (128 + \<beta>)
        else word_of_int (256 - \<beta>))"
      using False base_angle_bounds(1,4) [OF q] u
      unfolding fixed_atan2_q8_8_def if_not_P [OF nz] Let_def say sax c_div_def q_def [symmetric]
      by (simp add: \<beta>_def)
    with \<beta> show ?thesis by blast
  qed
qed


subsection \<open>Claims about the arctangent\<close>

text \<open>
  C3.  Division by zero outside the all-zero case.  With one argument \<open>-32768\<close> and the
  other 0 the zero check is skipped, \<open>abs\<close> stored into \<open>int16_t\<close> stays \<open>-32768\<close>, the
  comparison picks the zero as divisor, and the program divides by zero.
\<close>

theorem fixed_atan2_divides_by_zero:
  "fixed_atan2_q8_8 (- 32768) 0 = None \<and> fixed_atan2_q8_8 0 (- 32768) = None"
  by (simp add: fixed_atan2_q8_8_def c_div_def)

text \<open>
  C4, with closed ranges.  For every pair \<open>(y, x)\<close> with both coordinates nonzero and above
  \<open>-32768\<close>, \<open>fixed_atan2_q8_8\<close> returns an angle in the closed 64-step range of the
  quadrant of \<open>(x, y)\<close>, taken modulo 256: \<open>[0, 64]\<close> for \<open>x > 0, y > 0\<close>,
  \<open>[64, 128]\<close> for \<open>x < 0, y > 0\<close>, \<open>[128, 192]\<close> for \<open>x < 0, y < 0\<close>, and
  \<open>[192, 255]\<close> or \<open>0\<close> for \<open>x > 0, y < 0\<close>.
\<close>

theorem fixed_atan2_quadrant_closed_range:
  assumes "sint y \<noteq> 0" "sint x \<noteq> 0" "- 32768 < sint y" "- 32768 < sint x"
  shows "\<exists>r. fixed_atan2_q8_8 y x = Some r
    \<and> (0 < sint x \<and> 0 < sint y \<longrightarrow> uint r \<le> 64)
    \<and> (sint x < 0 \<and> 0 < sint y \<longrightarrow> 64 \<le> uint r \<and> uint r \<le> 128)
    \<and> (sint x < 0 \<and> sint y < 0 \<longrightarrow> 128 \<le> uint r \<and> uint r \<le> 192)
    \<and> (0 < sint x \<and> sint y < 0 \<longrightarrow> uint r = 0 \<or> 192 \<le> uint r)"
proof -
  have "\<not> (x = 0 \<and> y = 0)"
    using assms(1) by auto
  then obtain \<beta> where \<beta>: "0 \<le> \<beta>" "\<beta> \<le> 64"
    and r: "fixed_atan2_q8_8 y x = Some (
        if sint x \<ge> 0 \<and> sint y \<ge> 0 then word_of_int \<beta>
        else if sint x < 0 \<and> sint y \<ge> 0 then word_of_int (128 - \<beta>)
        else if sint x < 0 \<and> sint y < 0 then word_of_int (128 + \<beta>)
        else word_of_int (256 - \<beta>))"
    using fixed_atan2_base [OF assms(3,4)] by blast
  have q1: "uint (word_of_int \<beta> :: uint8_t) = \<beta>"
    and q2: "uint (word_of_int (128 - \<beta>) :: uint8_t) = 128 - \<beta>"
    and q3: "uint (word_of_int (128 + \<beta>) :: uint8_t) = 128 + \<beta>"
    using \<beta> by (auto intro!: uint_word_of_int8 simp del: of_int_diff of_int_add)
  have q4: "uint (word_of_int (256 - \<beta>) :: uint8_t) = (if \<beta> = 0 then 0 else 256 - \<beta>)"
  proof (cases "\<beta> = 0")
    case True
    then show ?thesis by simp
  next
    case False
    with \<beta> have "0 \<le> 256 - \<beta>" "256 - \<beta> < 256" by linarith+
    then have "uint (word_of_int (256 - \<beta>) :: uint8_t) = 256 - \<beta>"
      by (rule uint_word_of_int8)
    with False show ?thesis by simp
  qed
  show ?thesis
    unfolding r using \<beta> assms(1,2) q1 q2 q3 q4 by auto
qed

theorem fixed_atan2_quadrant_closed_range_witness:
  "(\<exists>r. fixed_atan2_q8_8 5 3 = Some r \<and> uint r \<le> 64)
   \<and> (\<exists>r. fixed_atan2_q8_8 5 (- 3) = Some r \<and> 64 \<le> uint r \<and> uint r \<le> 128)
   \<and> (\<exists>r. fixed_atan2_q8_8 (- 5) (- 3) = Some r \<and> 128 \<le> uint r \<and> uint r \<le> 192)
   \<and> (\<exists>r. fixed_atan2_q8_8 (- 5) 3 = Some r \<and> (uint r = 0 \<or> 192 \<le> uint r))"
  using fixed_atan2_quadrant_closed_range [of 5 3]
    fixed_atan2_quadrant_closed_range [of 5 "- 3"]
    fixed_atan2_quadrant_closed_range [of "- 5" "- 3"]
    fixed_atan2_quadrant_closed_range [of "- 5" 3]
  by simp

text \<open>
  The half-open ranges fail at the upper end of each quadrant, and with an argument
  \<open>-32768\<close> the result leaves the quadrant altogether.
\<close>

theorem fixed_atan2_half_open_counterexample:
  "fixed_atan2_q8_8 1 1 = Some 64 \<and> fixed_atan2_q8_8 1 (- 300) = Some 128
   \<and> fixed_atan2_q8_8 (- 1) (- 1) = Some 192 \<and> fixed_atan2_q8_8 (- 1) 300 = Some 0
   \<and> fixed_atan2_q8_8 (- 32768) 3 = Some 171"
  by (simp add: fixed_atan2_q8_8_def c_div_def signed_divide_int_def)

end
